theory Spec2Isabelle
  imports Complex_Main "HOL-Library.Log_Nat"
begin

section \<open>Python values used by retirement\_simulator.py\<close>

text \<open>
  The script works on Python integers (unbounded, modelled as \<open>int\<close> and \<open>nat\<close>) and on
  Python floats (IEEE 754 binary64). A finite float is modelled by the real number it
  denotes, every arithmetic result is rounded to the nearest binary64 value with ties to
  the even significand, and a result beyond the binary64 range becomes an infinity. The
  two zeros are not told apart: the script only converts floats to integers and prints
  them, and both zeros convert to 0. Every exception the script can raise on the
  modelled paths is a value of \<open>py_error\<close>; \<open>SystemExit n\<close> is \<^verbatim>\<open>sys.exit(n)\<close>.
\<close>

datatype py_error =
  ValueError | ZeroDivisionError | IndexError | OverflowError | SystemExit nat

datatype py_float = Finite real | PosInf | NegInf | NaN

subsection \<open>Rounding to binary64\<close>

text \<open>Rounding to the nearest integer, ties to the even one.\<close>

definition round_half_even :: "real \<Rightarrow> int" where
  "round_half_even x =
     (let f = \<lfloor>x\<rfloor>; d = x - of_int f
      in if d < 1 / 2 then f
         else if 1 / 2 < d then f + 1
         else if even f then f else f + 1)"

text \<open>
  A non-negative \<open>y\<close> rounded to an integer with at most 53 significant bits: the lowest
  \<open>k\<close> bits of its integer part, those that do not fit the significand, are rounded away.
\<close>

definition round_to_53_bits :: "real \<Rightarrow> real" where
  "round_to_53_bits y =
     (let k = nat (bitlen \<lfloor>y\<rfloor> - 53)
      in of_int (round_half_even (y / 2 ^ k)) * 2 ^ k)"

text \<open>
  The binary64 value nearest to \<open>x\<close>, as if the exponent had no upper bound. Binary64
  values are the multiples of \<open>2\<^sup>-\<^sup>1\<^sup>0\<^sup>7\<^sup>4\<close> (the smallest subnormal) with a 53-bit
  significand, so the magnitude is rounded in units of \<open>2\<^sup>-\<^sup>1\<^sup>0\<^sup>7\<^sup>4\<close>.
\<close>

definition round_double :: "real \<Rightarrow> real" where
  "round_double x = sgn x * (round_to_53_bits (\<bar>x\<bar> * 2 ^ 1074) / 2 ^ 1074)"

text \<open>The float for an exact result: a rounded magnitude of \<open>2\<^sup>1\<^sup>0\<^sup>2\<^sup>4\<close> or more overflows.\<close>

definition float_of_real :: "real \<Rightarrow> py_float" where
  "float_of_real x =
     (let y = round_double x
      in if 2 ^ 1024 \<le> y then PosInf
         else if y \<le> - (2 ^ 1024) then NegInf
         else Finite y)"

subsection \<open>Float arithmetic and conversions\<close>

fun float_add :: "py_float \<Rightarrow> py_float \<Rightarrow> py_float" where
  "float_add NaN b = NaN"
| "float_add a NaN = NaN"
| "float_add PosInf NegInf = NaN"
| "float_add NegInf PosInf = NaN"
| "float_add PosInf b = PosInf"
| "float_add a PosInf = PosInf"
| "float_add NegInf b = NegInf"
| "float_add a NegInf = NegInf"
| "float_add (Finite a) (Finite b) = float_of_real (a + b)"

fun float_mul :: "py_float \<Rightarrow> py_float \<Rightarrow> py_float" where
  "float_mul NaN b = NaN"
| "float_mul a NaN = NaN"
| "float_mul (Finite a) (Finite b) = float_of_real (a * b)"
| "float_mul (Finite a) PosInf = (if a = 0 then NaN else if 0 < a then PosInf else NegInf)"
| "float_mul (Finite a) NegInf = (if a = 0 then NaN else if 0 < a then NegInf else PosInf)"
| "float_mul PosInf (Finite b) = (if b = 0 then NaN else if 0 < b then PosInf else NegInf)"
| "float_mul NegInf (Finite b) = (if b = 0 then NaN else if 0 < b then NegInf else PosInf)"
| "float_mul PosInf PosInf = PosInf"
| "float_mul PosInf NegInf = NegInf"
| "float_mul NegInf PosInf = NegInf"
| "float_mul NegInf NegInf = PosInf"

text \<open>
  The conversion of an integer operand to float, as in \<^verbatim>\<open>n * x\<close> for an integer \<^verbatim>\<open>n\<close>
  and a float \<^verbatim>\<open>x\<close>: correctly rounded, OverflowError when the integer is too large.
\<close>

definition int_to_float :: "int \<Rightarrow> py_error + py_float" where
  "int_to_float n =
     (case float_of_real (of_int n) of
        Finite y \<Rightarrow> Inr (Finite y)
      | _ \<Rightarrow> Inl OverflowError)"

text \<open>\<^verbatim>\<open>int(x)\<close> on a finite float: truncation toward zero.\<close>

definition py_int :: "real \<Rightarrow> int" where
  "py_int x = (if 0 \<le> x then \<lfloor>x\<rfloor> else \<lceil>x\<rceil>)"

text \<open>\<^verbatim>\<open>int(x)\<close> on a float: OverflowError on an infinity, ValueError on a NaN.\<close>

fun float_to_int :: "py_float \<Rightarrow> py_error + int" where
  "float_to_int (Finite x) = Inr (py_int x)"
| "float_to_int PosInf = Inl OverflowError"
| "float_to_int NegInf = Inl OverflowError"
| "float_to_int NaN = Inl ValueError"

text \<open>
  \<^verbatim>\<open>int(n * (1 + r))\<close> for an integer \<^verbatim>\<open>n\<close> and a float \<^verbatim>\<open>r\<close>, the expression of
  lines 117 and 120: the sum \<^verbatim>\<open>1 + r\<close> is rounded, \<^verbatim>\<open>n\<close> is converted to float, the
  product is rounded, and the result is truncated.
\<close>

definition grow :: "int \<Rightarrow> py_float \<Rightarrow> py_error + int" where
  "grow n r =
     (let factor = float_add (Finite 1) r
      in case int_to_float n of
           Inl e \<Rightarrow> Inl e
         | Inr x \<Rightarrow> float_to_int (float_mul x factor))"

text \<open>
  \<^verbatim>\<open>a / b\<close> on two integers: the quotient correctly rounded, ZeroDivisionError on a zero
  divisor, OverflowError when the quotient is too large for a float.
\<close>

definition int_true_div :: "int \<Rightarrow> int \<Rightarrow> py_error + real" where
  "int_true_div a b =
     (if b = 0 then Inl ZeroDivisionError
      else case float_of_real (of_int a / of_int b) of
             Finite y \<Rightarrow> Inr y
           | _ \<Rightarrow> Inl OverflowError)"

text \<open>
  \<^verbatim>\<open>round(x, 1)\<close> on a finite float: the exact value of \<open>x\<close> is rounded to one decimal
  place, ties to the even digit, and the decimal result is converted back to the nearest
  float.
\<close>

definition py_round1 :: "real \<Rightarrow> real" where
  "py_round1 x = round_double (of_int (round_half_even (x * 10)) / 10)"

text \<open>\<^verbatim>\<open>list(range(a, b))\<close> for a non-negative start.\<close>

definition py_range :: "nat \<Rightarrow> int \<Rightarrow> nat list" where
  "py_range a b = [a ..< nat b]"

text \<open>\<^verbatim>\<open>min(...)\<close> and \<open>max(...)\<close> over an iterable; empty input raises ValueError.\<close>

fun py_min :: "int list \<Rightarrow> py_error + int" where
  "py_min [] = Inl ValueError"
| "py_min (x # xs) = Inr (fold (\<lambda>y m. if y < m then y else m) xs x)"

fun py_max :: "int list \<Rightarrow> py_error + int" where
  "py_max [] = Inl ValueError"
| "py_max (x # xs) = Inr (fold (\<lambda>y m. if y > m then y else m) xs x)"

subsection \<open>The random module\<close>

text \<open>
  The generator is the module-level \<^verbatim>\<open>random\<close> state. Each simulation run makes two
  calls, \<^verbatim>\<open>random.randrange(0, len(returns))\<close> and \<^verbatim>\<open>random.triangular(...)\<close>, the
  latter drawing one \<^verbatim>\<open>random.random()\<close> value \<open>u\<close> with \<open>0 \<le> u < 1\<close>. The stream of
  the generator is a function from the run number to the pair of values it yields for
  these two calls. The triangular sample is computed on the reals.
\<close>

type_synonym draw = "nat \<times> real"

definition randrange :: "nat \<Rightarrow> nat \<Rightarrow> nat \<Rightarrow> py_error + nat" where
  "randrange start stop k = (if stop \<le> start then Inl ValueError else Inr k)"

text \<open>
  \<^verbatim>\<open>random.triangular(low, high, mode)\<close> of the standard library, on the uniform
  value \<open>u\<close>:
  \<^verbatim>\<open>
    try: c = (mode - low) / (high - low)
    except ZeroDivisionError: return low
    if u > c:
        u = 1.0 - u; c = 1.0 - c; low, high = high, low
    return low + (high - low) * _sqrt(u * c)
  \<close>
\<close>

definition triangular :: "real \<Rightarrow> real \<Rightarrow> real \<Rightarrow> real \<Rightarrow> real" where
  "triangular low high mode u =
     (if high - low = 0 then low
      else let c = (mode - low) / (high - low)
           in if c < u then high + (low - high) * sqrt ((1 - u) * (1 - c))
              else low + (high - low) * sqrt (u * c))"

section \<open>Inputs and their validation\<close>

text \<open>
  Each numeric input is re-prompted until \<^verbatim>\<open>isdigit()\<close> holds, so after \<^verbatim>\<open>int(...)\<close>
  it is a natural number.
\<close>

record parameters =
  start_value :: nat
  withdrawal :: nat
  min_years :: nat
  most_likely_years :: nat
  max_years :: nat
  num_sim :: nat

text \<open>The block under \<^verbatim>\<open># check the math on inputs\<close>.\<close>

definition check_inputs :: "parameters \<Rightarrow> py_error + unit" where
  "check_inputs p =
     (if \<not> (min_years p < most_likely_years p \<and> most_likely_years p < max_years p)
         \<or> max_years p > 99
      then Inl (SystemExit 1)
      else if \<not> withdrawal p < start_value p
      then Inl (SystemExit 1)
      else Inr ())"

section \<open>The simulator\<close>

text \<open>The loop that builds \<^verbatim>\<open>lifespan_returns\<close> and \<^verbatim>\<open>lifespan_infl\<close>.\<close>

fun build_lifespan ::
  "py_float list \<Rightarrow> py_float list \<Rightarrow> nat list \<Rightarrow> py_float list \<Rightarrow> py_float list
    \<Rightarrow> py_error + (py_float list \<times> py_float list)" where
  "build_lifespan returns infl_rate [] lifespan_returns lifespan_infl =
     Inr (lifespan_returns, lifespan_infl)"
| "build_lifespan returns infl_rate (i # rest) lifespan_returns lifespan_infl =
     (if length returns = 0 then Inl ZeroDivisionError
      else if length infl_rate = 0 then Inl ZeroDivisionError
      else build_lifespan returns infl_rate rest
             (lifespan_returns @ [returns ! (i mod length returns)])
             (lifespan_infl @ [infl_rate ! (i mod length infl_rate)]))"

text \<open>
  The loop over the years of one run. \<open>index\<close> is the position given by
  \<^verbatim>\<open>enumerate\<close>, the list argument holds the returns still to be visited, and the result
  is the final \<^verbatim>\<open>investments\<close> with the \<^verbatim>\<open>bankrupt\<close> flag.
\<close>

fun year_loop ::
  "int \<Rightarrow> py_float list \<Rightarrow> nat \<Rightarrow> py_float list \<Rightarrow> int \<Rightarrow> int
    \<Rightarrow> py_error + (int \<times> bool)" where
  "year_loop wd lifespan_infl index [] withdrawal_infl investments =
     Inr (investments, False)"
| "year_loop wd lifespan_infl index (i # rest) withdrawal_infl investments =
     (if length lifespan_infl \<le> index then Inl IndexError
      else
        let infl = lifespan_infl ! index
        in case (if index = 0 then Inr wd else grow withdrawal_infl infl) of
             Inl e \<Rightarrow> Inl e
           | Inr withdrawal_infl' \<Rightarrow>
               (case grow (investments - withdrawal_infl') i of
                  Inl e \<Rightarrow> Inl e
                | Inr investments' \<Rightarrow>
                    if investments' \<le> 0 then Inr (investments', True)
                    else year_loop wd lifespan_infl (Suc index) rest withdrawal_infl'
                           investments'))"

text \<open>The duration of a run, from the uniform value drawn inside \<^verbatim>\<open>triangular\<close>.\<close>

definition duration :: "parameters \<Rightarrow> real \<Rightarrow> int" where
  "duration p u =
     py_int (triangular (real (min_years p)) (real (max_years p))
               (real (most_likely_years p)) u)"

text \<open>
  One pass through the body of the \<^verbatim>\<open>while\<close> loop up to the end of the year loop.
  \<^verbatim>\<open>withdrawal_infl\<close> is unbound (or left over from the run before) when the year loop
  starts and is assigned at index 0 before it is read; the model starts it at 0.
\<close>

definition simulate_run ::
  "parameters \<Rightarrow> py_float list \<Rightarrow> py_float list \<Rightarrow> draw \<Rightarrow> py_error + (int \<times> bool)" where
  "simulate_run p returns infl_rate d =
     (let investments = int (start_value p)
      in case randrange 0 (length returns) (fst d) of
           Inl e \<Rightarrow> Inl e
         | Inr start_year \<Rightarrow>
             let end_year = int start_year + duration p (snd d);
                 lifespan = py_range start_year end_year
             in (case build_lifespan returns infl_rate lifespan [] [] of
                   Inl e \<Rightarrow> Inl e
                 | Inr (lifespan_returns, lifespan_infl) \<Rightarrow>
                     year_loop (int (withdrawal p)) lifespan_infl 0 lifespan_returns 0
                       investments))"

function sim_loop ::
  "parameters \<Rightarrow> py_float list \<Rightarrow> py_float list \<Rightarrow> (nat \<Rightarrow> draw) \<Rightarrow> nat \<Rightarrow> nat \<Rightarrow> int list
    \<Rightarrow> py_error + (int list \<times> nat)" where
  "sim_loop p returns infl_rate rng sim_count bankrupt_count outcome =
     (if sim_count < num_sim p then
        (case simulate_run p returns infl_rate (rng sim_count) of
           Inl e \<Rightarrow> Inl e
         | Inr (investments, bankrupt) \<Rightarrow>
             if bankrupt
             then sim_loop p returns infl_rate rng (Suc sim_count) (bankrupt_count + 1)
                    (outcome @ [0])
             else sim_loop p returns infl_rate rng (Suc sim_count) bankrupt_count
                    (outcome @ [investments]))
      else Inr (outcome, bankrupt_count))"
  by pat_completeness auto
termination
  by (relation "measure (\<lambda>(p, returns, infl_rate, rng, sim_count, bankrupt_count, outcome).
                  num_sim p - sim_count)") auto

declare sim_loop.simps [simp del]

definition simulator ::
  "parameters \<Rightarrow> py_float list \<Rightarrow> py_float list \<Rightarrow> (nat \<Rightarrow> draw)
    \<Rightarrow> py_error + (int list \<times> nat)" where
  "simulator p returns infl_rate rng = sim_loop p returns infl_rate rng 0 0 []"

section \<open>The aggregator\<close>

text \<open>
  \<^verbatim>\<open>bankrupt_prob\<close> returns the odds and prints the average, the minimum and the
  maximum; the model returns the four values, computed in the order of the source.
\<close>

record statistics =
  odds :: real
  average :: int
  minimum :: int
  maximum :: int

definition bankrupt_prob :: "int list \<Rightarrow> nat \<Rightarrow> py_error + statistics" where
  "bankrupt_prob outcome bankrupt_count =
     (let total = int (length outcome)
      in case int_true_div (100 * int bankrupt_count) total of
           Inl e \<Rightarrow> Inl e
         | Inr ratio \<Rightarrow>
             (case int_true_div (sum_list outcome) total of
                Inl e \<Rightarrow> Inl e
              | Inr mean \<Rightarrow>
                  (case py_min outcome of
                     Inl e \<Rightarrow> Inl e
                   | Inr minimum_v \<Rightarrow>
                       (case py_max outcome of
                          Inl e \<Rightarrow> Inl e
                        | Inr maximum_v \<Rightarrow>
                            Inr \<lparr>odds = py_round1 ratio, average = py_int mean,
                                 minimum = minimum_v, maximum = maximum_v\<rparr>))))"

section \<open>The script\<close>

definition main ::
  "parameters \<Rightarrow> py_float list \<Rightarrow> py_float list \<Rightarrow> (nat \<Rightarrow> draw)
    \<Rightarrow> py_error + statistics" where
  "main p returns infl_rate rng =
     (case simulator p returns infl_rate rng of
        Inl e \<Rightarrow> Inl e
      | Inr (outcome, bankrupt_count) \<Rightarrow> bankrupt_prob outcome bankrupt_count)"

text \<open>The script after the data files are loaded and the inputs are read.\<close>

definition script ::
  "parameters \<Rightarrow> py_float list \<Rightarrow> py_float list \<Rightarrow> (nat \<Rightarrow> draw)
    \<Rightarrow> py_error + statistics" where
  "script p returns infl_rate rng =
     (case check_inputs p of
        Inl e \<Rightarrow> Inl e
      | Inr _ \<Rightarrow> main p returns infl_rate rng)"

section \<open>The year-by-year rule in the words of the specification\<close>

text \<open>
  The withdrawal of year \<open>k\<close> and the portfolio after \<open>k\<close> years when no year stops the
  run: the withdrawal of year 0 is the base withdrawal, later withdrawals are the one of
  the year before grown by one plus the year's inflation and truncated toward zero; each
  year first subtracts the withdrawal, then grows the difference by one plus the year's
  return and truncates toward zero. Growth is float arithmetic, and an exception raised
  in a year is the value of that year and of every later one.
\<close>

fun year_withdrawal :: "int \<Rightarrow> py_float list \<Rightarrow> nat \<Rightarrow> py_error + int" where
  "year_withdrawal wd infls 0 = Inr wd"
| "year_withdrawal wd infls (Suc k) =
     (case year_withdrawal wd infls k of
        Inl e \<Rightarrow> Inl e
      | Inr w \<Rightarrow> grow w (infls ! Suc k))"

fun portfolio_after ::
  "int \<Rightarrow> py_float list \<Rightarrow> py_float list \<Rightarrow> int \<Rightarrow> nat \<Rightarrow> py_error + int" where
  "portfolio_after wd infls rets s 0 = Inr s"
| "portfolio_after wd infls rets s (Suc k) =
     (case portfolio_after wd infls rets s k of
        Inl e \<Rightarrow> Inl e
      | Inr p \<Rightarrow>
          (case year_withdrawal wd infls k of
             Inl e \<Rightarrow> Inl e
           | Inr w \<Rightarrow> grow (p - w) (rets ! k)))"

text \<open>A year stops the run when it raises or leaves a portfolio that is not positive.\<close>

fun year_stops :: "py_error + int \<Rightarrow> bool" where
  "year_stops (Inl e) = True"
| "year_stops (Inr v) = (v \<le> 0)"

text \<open>The first year, if any, that stops the run.\<close>

definition first_stop ::
  "int \<Rightarrow> py_float list \<Rightarrow> py_float list \<Rightarrow> int \<Rightarrow> nat option" where
  "first_stop wd infls rets s =
     find (\<lambda>k. year_stops (portfolio_after wd infls rets s (Suc k))) [0 ..< length rets]"

text \<open>The result of a run that stops, or does not stop, with the given year value.\<close>

fun run_result :: "bool \<Rightarrow> py_error + int \<Rightarrow> py_error + (int \<times> bool)" where
  "run_result bankrupt (Inl e) = Inl e"
| "run_result bankrupt (Inr v) = Inr (v, bankrupt)"

section \<open>The triangular distribution\<close>


section \<open>Facts about the operations\<close>

subsection \<open>Rounding to binary64\<close>

lemma round_half_even_of_int: "round_half_even (of_int n) = n"
  by (simp add: round_half_even_def)

lemma round_half_even_mono:
  assumes "x \<le> y"
  shows "round_half_even x \<le> round_half_even y"
proof (cases "\<lfloor>x\<rfloor> = \<lfloor>y\<rfloor>")
  case True
  with assms show ?thesis
    unfolding round_half_even_def Let_def by (auto split: if_splits)
next
  case False
  with assms have lt: "\<lfloor>x\<rfloor> + 1 \<le> \<lfloor>y\<rfloor>"
    using floor_mono[OF assms] by linarith
  have "round_half_even x \<le> \<lfloor>x\<rfloor> + 1"
    unfolding round_half_even_def Let_def by simp
  moreover have "\<lfloor>y\<rfloor> \<le> round_half_even y"
    unfolding round_half_even_def Let_def by simp
  ultimately show ?thesis using lt by linarith
qed

lemma shift_upper:
  assumes "0 \<le> y"
  shows "y < 2 ^ (nat (bitlen \<lfloor>y\<rfloor> - 53) + 53)"
proof -
  let ?k = "nat (bitlen \<lfloor>y\<rfloor> - 53)"
  have "bitlen \<lfloor>y\<rfloor> \<le> int (?k + 53)" by simp
  then have "\<lfloor>y\<rfloor> < 2 ^ nat (int (?k + 53))"
    by (simp only: bitlen_le_iff_power)
  then have "\<lfloor>y\<rfloor> < 2 ^ (?k + 53)" by (simp only: nat_int)
  then have "y < of_int (2 ^ (?k + 53))" by (simp only: floor_less_iff)
  then show ?thesis by simp
qed

lemma shift_lower:
  assumes "0 < nat (bitlen \<lfloor>y\<rfloor> - 53)"
  shows "2 ^ (nat (bitlen \<lfloor>y\<rfloor> - 53) + 52) \<le> y"
proof -
  define k where "k = nat (bitlen \<lfloor>y\<rfloor> - 53)"
  from assms have "int (k + 53) \<le> bitlen \<lfloor>y\<rfloor>" by (simp add: k_def)
  then have "int (k + 53) \<le> 0 \<or> 2 ^ (nat (int (k + 53)) - 1) \<le> \<lfloor>y\<rfloor>"
    by (simp only: bitlen_ge_iff_power)
  moreover have "\<not> int (k + 53) \<le> 0" by simp
  moreover have "nat (int (k + 53)) - 1 = k + 52" by simp
  ultimately have "2 ^ (k + 52) \<le> \<lfloor>y\<rfloor>" by metis
  then have "of_int (2 ^ (k + 52)) \<le> y" by (simp only: le_floor_iff)
  then show ?thesis unfolding k_def by simp
qed

lemma shift_mono:
  assumes "y1 \<le> y2"
  shows "nat (bitlen \<lfloor>y1\<rfloor> - 53) \<le> nat (bitlen \<lfloor>y2\<rfloor> - 53)"
proof -
  have "nat \<lfloor>y1\<rfloor> \<le> nat \<lfloor>y2\<rfloor>" using assms by (simp add: floor_mono nat_mono)
  then have "bitlen \<lfloor>y1\<rfloor> \<le> bitlen \<lfloor>y2\<rfloor>"
    by (simp add: bitlen_def floorlog_mono)
  then show ?thesis by simp
qed

lemma round_to_53_bits_upper:
  assumes "0 \<le> y"
  shows "round_to_53_bits y \<le> 2 ^ (nat (bitlen \<lfloor>y\<rfloor> - 53) + 53)"
proof -
  let ?k = "nat (bitlen \<lfloor>y\<rfloor> - 53)"
  have "y < 2 ^ (?k + 53)" using shift_upper[OF assms] .
  then have "y / 2 ^ ?k \<le> 2 ^ 53"
    by (simp add: power_add field_simps)
  then have "round_half_even (y / 2 ^ ?k) \<le> round_half_even (of_int (2 ^ 53))"
    by (intro round_half_even_mono) simp
  then have "round_half_even (y / 2 ^ ?k) \<le> 2 ^ 53"
    by (simp only: round_half_even_of_int)
  then have "real_of_int (round_half_even (y / 2 ^ ?k)) \<le> 2 ^ 53"
    by (metis of_int_le_iff of_int_numeral of_int_power)
  then have "real_of_int (round_half_even (y / 2 ^ ?k)) * 2 ^ ?k \<le> 2 ^ 53 * 2 ^ ?k"
    by (intro mult_right_mono) simp_all
  then show ?thesis
    by (simp add: round_to_53_bits_def Let_def power_add mult.commute)
qed

lemma round_to_53_bits_lower:
  assumes "0 < nat (bitlen \<lfloor>y\<rfloor> - 53)"
  shows "2 ^ (nat (bitlen \<lfloor>y\<rfloor> - 53) + 52) \<le> round_to_53_bits y"
proof -
  let ?k = "nat (bitlen \<lfloor>y\<rfloor> - 53)"
  have "2 ^ (?k + 52) \<le> y" using shift_lower[OF assms] .
  then have "2 ^ 52 \<le> y / 2 ^ ?k"
    by (simp add: power_add field_simps)
  then have "round_half_even (of_int (2 ^ 52)) \<le> round_half_even (y / 2 ^ ?k)"
    by (intro round_half_even_mono) simp
  then have "2 ^ 52 \<le> round_half_even (y / 2 ^ ?k)"
    by (simp only: round_half_even_of_int)
  then have "2 ^ 52 \<le> real_of_int (round_half_even (y / 2 ^ ?k))"
    by (metis of_int_le_iff of_int_numeral of_int_power)
  then have "2 ^ 52 * 2 ^ ?k \<le> real_of_int (round_half_even (y / 2 ^ ?k)) * 2 ^ ?k"
    by (intro mult_right_mono) simp_all
  then show ?thesis
    by (simp add: round_to_53_bits_def Let_def power_add mult.commute)
qed

lemma round_to_53_bits_mono:
  assumes "0 \<le> y1" "y1 \<le> y2"
  shows "round_to_53_bits y1 \<le> round_to_53_bits y2"
proof -
  let ?k1 = "nat (bitlen \<lfloor>y1\<rfloor> - 53)" and ?k2 = "nat (bitlen \<lfloor>y2\<rfloor> - 53)"
  have k: "?k1 \<le> ?k2" using shift_mono[OF assms(2)] .
  show ?thesis
  proof (cases "?k1 = ?k2")
    case True
    have "y1 / 2 ^ ?k2 \<le> y2 / 2 ^ ?k2"
      using assms(2) by (simp add: divide_right_mono)
    then have "round_half_even (y1 / 2 ^ ?k2) \<le> round_half_even (y2 / 2 ^ ?k2)"
      by (rule round_half_even_mono)
    then have "real_of_int (round_half_even (y1 / 2 ^ ?k2)) * 2 ^ ?k2
                 \<le> real_of_int (round_half_even (y2 / 2 ^ ?k2)) * 2 ^ ?k2"
      by (intro mult_right_mono) simp_all
    then show ?thesis
      using True by (simp add: round_to_53_bits_def Let_def)
  next
    case False
    with k have lt: "?k1 + 1 \<le> ?k2" and pos: "0 < ?k2" by simp_all
    have "round_to_53_bits y1 \<le> 2 ^ (?k1 + 53)"
      using round_to_53_bits_upper[OF assms(1)] .
    also have "(2 :: real) ^ (?k1 + 53) \<le> 2 ^ (?k2 + 52)"
      using lt by (intro power_increasing) simp_all
    also have "\<dots> \<le> round_to_53_bits y2"
      using round_to_53_bits_lower[OF pos] .
    finally show ?thesis .
  qed
qed

lemma round_to_53_bits_nonneg: "0 \<le> y \<Longrightarrow> 0 \<le> round_to_53_bits y"
proof -
  assume "0 \<le> y"
  then have "0 \<le> y / 2 ^ nat (bitlen \<lfloor>y\<rfloor> - 53)" by simp
  then have "round_half_even (of_int 0) \<le> round_half_even (y / 2 ^ nat (bitlen \<lfloor>y\<rfloor> - 53))"
    by (intro round_half_even_mono) simp
  then have "0 \<le> round_half_even (y / 2 ^ nat (bitlen \<lfloor>y\<rfloor> - 53))"
    by (simp only: round_half_even_of_int)
  then show ?thesis by (simp add: round_to_53_bits_def Let_def)
qed

lemma round_double_mono:
  assumes "x \<le> y"
  shows "round_double x \<le> round_double y"
proof -
  define S :: real where "S = 2 ^ 1074"
  have S: "0 < S" by (simp add: S_def)
  define r where "r z = round_to_53_bits (\<bar>z\<bar> * S) / S" for z
  have rd: "round_double z = sgn z * r z" for z
    by (simp only: round_double_def r_def S_def)
  have nn: "0 \<le> r z" for z
    unfolding r_def using S by (intro divide_nonneg_pos round_to_53_bits_nonneg) simp_all
  have mono: "r a \<le> r b" if "\<bar>a\<bar> \<le> \<bar>b\<bar>" for a b
  proof -
    have "0 \<le> \<bar>a\<bar> * S" "\<bar>a\<bar> * S \<le> \<bar>b\<bar> * S"
      using that S by (simp_all add: mult_right_mono)
    from round_to_53_bits_mono[OF this] show ?thesis
      unfolding r_def using S by (simp add: divide_right_mono)
  qed
  consider "0 \<le> x" | "x < 0" "0 \<le> y" | "y < 0" using assms by linarith
  then show ?thesis
  proof cases
    case 1
    show ?thesis
    proof (cases "x = 0")
      case True
      then show ?thesis using nn[of y] 1 assms by (simp add: rd sgn_if)
    next
      case False
      with 1 assms have "sgn x = 1" "sgn y = 1" by (simp_all add: sgn_if)
      moreover have "r x \<le> r y" using 1 assms by (intro mono) simp
      ultimately show ?thesis by (simp add: rd)
    qed
  next
    case 2
    then have "sgn x = - 1" by (simp add: sgn_if)
    moreover have "0 \<le> sgn y * r y" using 2 nn[of y] by (simp add: sgn_if)
    ultimately show ?thesis using nn[of x] by (simp add: rd)
  next
    case 3
    then have "sgn x = - 1" "sgn y = - 1" using assms by (simp_all add: sgn_if)
    moreover have "r y \<le> r x" using 3 assms by (intro mono) simp
    ultimately show ?thesis by (simp add: rd)
  qed
qed

lemma bitlen_eqI:
  assumes "2 ^ (w + 52) \<le> n" "n < 2 ^ (w + 53)"
  shows "bitlen n = int w + 53"
proof -
  have e: "nat (int (w + 53)) = w + 53" by (simp only: nat_int)
  have "0 \<le> int (w + 53) \<and> n < 2 ^ nat (int (w + 53))"
    unfolding e using assms(2) by simp
  then have "bitlen n \<le> int (w + 53)"
    by (simp only: bitlen_le_iff_power)
  moreover have "w + 53 - 1 = w + 52" by simp
  then have "int (w + 53) \<le> 0 \<or> 2 ^ (nat (int (w + 53)) - 1) \<le> n"
    unfolding e using assms(1) by (simp only:) simp
  then have "int (w + 53) \<le> bitlen n"
    by (simp only: bitlen_ge_iff_power)
  ultimately show ?thesis by simp
qed

lemma round_to_53_bits_eval:
  assumes "2 ^ (k + 52) \<le> y" "y < 2 ^ (k + 53)"
  shows "round_to_53_bits y = of_int (round_half_even (y / 2 ^ k)) * 2 ^ k"
proof -
  have "of_int (2 ^ (k + 52)) \<le> y" using assms(1) by simp
  then have l: "2 ^ (k + 52) \<le> \<lfloor>y\<rfloor>" by (simp only: le_floor_iff)
  have "y < of_int (2 ^ (k + 53))" using assms(2) by simp
  then have u: "\<lfloor>y\<rfloor> < 2 ^ (k + 53)" by (simp only: floor_less_iff)
  have "bitlen \<lfloor>y\<rfloor> = int k + 53" using l u by (rule bitlen_eqI)
  then have "nat (bitlen \<lfloor>y\<rfloor> - 53) = k" by simp
  then show ?thesis by (simp add: round_to_53_bits_def Let_def)
qed

lemma round_to_53_bits_subnormal:
  assumes "0 \<le> y" "y < 2 ^ 53"
  shows "round_to_53_bits y = of_int (round_half_even y)"
proof -
  have "y < of_int (2 ^ 53)" using assms(2) by simp
  then have "\<lfloor>y\<rfloor> < 2 ^ 53" by (simp only: floor_less_iff)
  then have "\<lfloor>y\<rfloor> < 2 ^ nat 53" by simp
  then have "bitlen \<lfloor>y\<rfloor> \<le> 53" by (simp only: bitlen_le_iff_power) simp
  then have "nat (bitlen \<lfloor>y\<rfloor> - 53) = 0" by simp
  then show ?thesis by (simp add: round_to_53_bits_def Let_def)
qed

lemma round_to_53_bits_exact:
  assumes "0 \<le> m" "m \<le> 2 ^ 53"
  shows "round_to_53_bits (of_int m * 2 ^ n) = of_int m * 2 ^ n"
proof -
  define y :: real where "y = of_int m * 2 ^ n"
  define k where "k = nat (bitlen \<lfloor>y\<rfloor> - 53)"
  have y0: "0 \<le> y" using assms(1) by (simp add: y_def)
  have "\<exists>j :: int. y / 2 ^ k = of_int j"
  proof (cases "k \<le> n")
    case True
    then have "(2 :: real) ^ n = 2 ^ (n - k) * 2 ^ k"
      by (simp add: power_add[symmetric])
    then have "y / 2 ^ k = of_int (m * 2 ^ (n - k))"
      by (simp add: y_def)
    then show ?thesis by blast
  next
    case False
    then have kpos: "0 < k" and kn: "n + 1 \<le> k" by simp_all
    have "2 ^ (k + 52) \<le> y" using shift_lower[of y] kpos by (simp add: k_def)
    also have "y \<le> 2 ^ 53 * 2 ^ n"
    proof -
      have "real_of_int m \<le> 2 ^ 53" using assms(2)
        by (metis of_int_le_iff of_int_numeral of_int_power)
      then show ?thesis unfolding y_def by (intro mult_right_mono) simp_all
    qed
    also have "\<dots> = 2 ^ (n + 1 + 52)" by (simp add: power_add)
    finally have "(2 :: real) ^ (k + 52) \<le> 2 ^ (n + 1 + 52)" .
    then have "k + 52 \<le> n + 1 + 52" by (simp only: power_increasing_iff one_less_numeral_iff semiring_norm)
    with kn have keq: "k = n + 1" by simp
    have "2 ^ (n + 1 + 52) \<le> y" using \<open>2 ^ (k + 52) \<le> y\<close> keq by simp
    then have "2 ^ 53 * 2 ^ n \<le> real_of_int m * 2 ^ n"
      by (simp add: y_def power_add)
    then have "2 ^ 53 \<le> real_of_int m" by simp
    then have "real_of_int (2 ^ 53) \<le> real_of_int m" by simp
    then have "2 ^ 53 \<le> m" by (simp only: of_int_le_iff)
    with assms(2) have "m = 2 ^ 53" by simp
    then have "y / 2 ^ k = of_int (2 ^ 52)"
      by (simp add: y_def keq)
    then show ?thesis by blast
  qed
  then obtain j :: int where j: "y / 2 ^ k = of_int j" by blast
  then have yj: "y = of_int j * 2 ^ k" by (simp add: field_simps)
  have "round_to_53_bits y = of_int (round_half_even (y / 2 ^ k)) * 2 ^ k"
    by (simp add: round_to_53_bits_def Let_def k_def)
  also have "\<dots> = of_int j * 2 ^ k"
    unfolding j by (simp only: round_half_even_of_int)
  finally show ?thesis using yj by (simp add: y_def)
qed

lemma round_double_dyadic:
  assumes "\<bar>m\<bar> \<le> 2 ^ 53" "n \<le> 1074"
  shows "round_double (of_int m / 2 ^ n) = of_int m / 2 ^ n"
proof -
  define S :: real where "S = 2 ^ 1074"
  have S: "S = 2 ^ n * 2 ^ (1074 - n)" using assms(2) by (simp add: S_def power_add[symmetric])
  have "\<bar>real_of_int m / 2 ^ n\<bar> * S = of_int \<bar>m\<bar> * 2 ^ (1074 - n)"
    by (simp add: S abs_mult)
  moreover have "round_to_53_bits (of_int \<bar>m\<bar> * 2 ^ (1074 - n)) = of_int \<bar>m\<bar> * 2 ^ (1074 - n)"
    using assms(1) by (intro round_to_53_bits_exact) simp_all
  ultimately have "round_to_53_bits (\<bar>real_of_int m / 2 ^ n\<bar> * S) / S = \<bar>real_of_int m / 2 ^ n\<bar>"
    by (simp add: S abs_mult)
  then have "round_double (of_int m / 2 ^ n) = sgn (real_of_int m / 2 ^ n) * \<bar>real_of_int m / 2 ^ n\<bar>"
    by (simp only: round_double_def S_def)
  then show ?thesis by (simp only: sgn_mult_abs)
qed

lemma round_double_of_int:
  "\<bar>m\<bar> \<le> 2 ^ 53 \<Longrightarrow> round_double (of_int m) = of_int m"
  using round_double_dyadic[of m 0] by simp

lemma round_double_eval:
  assumes "2 ^ (k + 52) \<le> \<bar>x\<bar> * 2 ^ 1074" "\<bar>x\<bar> * 2 ^ 1074 < 2 ^ (k + 53)"
  shows "round_double x =
           sgn x * (of_int (round_half_even (\<bar>x\<bar> * 2 ^ 1074 / 2 ^ k)) * 2 ^ k / 2 ^ 1074)"
  unfolding round_double_def round_to_53_bits_eval[OF assms] ..


lemma round_double_zero [simp]: "round_double 0 = 0"
  by (simp add: round_double_def)

lemma round_double_one [simp]: "round_double 1 = 1"
  using round_double_of_int[of 1] by simp

lemma round_double_numeral:
  "(numeral n :: int) \<le> 2 ^ 53 \<Longrightarrow> round_double (numeral n) = numeral n"
  using round_double_of_int[of "numeral n"] by simp

lemma round_double_minus: "round_double (- x) = - round_double x"
  by (simp add: round_double_def)

lemma round_double_abs_le:
  assumes "\<bar>x\<bar> \<le> real_of_int m" "m \<le> 2 ^ 53"
  shows "\<bar>round_double x\<bar> \<le> real_of_int m"
proof -
  have m: "\<bar>m\<bar> \<le> 2 ^ 53" "\<bar>- m\<bar> \<le> 2 ^ 53" using assms by linarith+
  have "x \<le> real_of_int m" "real_of_int (- m) \<le> x" using assms(1) by simp_all
  then have "round_double x \<le> round_double (real_of_int m)"
    "round_double (real_of_int (- m)) \<le> round_double x"
    by (simp_all only: round_double_mono)
  then show ?thesis
    unfolding round_double_of_int[OF m(1)] round_double_of_int[OF m(2)] by simp
qed

lemma float_of_real_finite:
  assumes "\<bar>x\<bar> \<le> real_of_int m" "m \<le> 2 ^ 53"
  shows "float_of_real x = Finite (round_double x)"
proof -
  have "\<bar>round_double x\<bar> \<le> real_of_int m" using assms by (rule round_double_abs_le)
  moreover have "real_of_int m \<le> 2 ^ 53" using assms(2)
    by (metis of_int_le_iff of_int_numeral of_int_power)
  moreover have "(2 :: real) ^ 53 < 2 ^ 1024" by (intro power_strict_increasing) simp_all
  ultimately have "\<not> 2 ^ 1024 \<le> round_double x" "\<not> round_double x \<le> - (2 ^ 1024)"
    by linarith+
  then show ?thesis by (simp add: float_of_real_def Let_def)
qed




lemma grow_exact:
  assumes "float_add (Finite 1) r = Finite f"
      and "\<bar>n\<bar> \<le> 2 ^ 53"
      and "real_of_int n * f = real_of_int m"
      and "\<bar>m\<bar> \<le> 2 ^ 53"
  shows "grow n r = Inr m"
proof -
  have n: "float_of_real (of_int n) = Finite (of_int n)"
    using float_of_real_finite[of "of_int n" "\<bar>n\<bar>"] assms(2) round_double_of_int[OF assms(2)]
    by simp
  have m: "float_of_real (of_int m) = Finite (of_int m)"
    using float_of_real_finite[of "of_int m" "\<bar>m\<bar>"] assms(4) round_double_of_int[OF assms(4)]
    by simp
  show ?thesis
    using assms(1) n m by (simp add: grow_def int_to_float_def assms(3) py_int_def)
qed

lemma float_add_one_int:
  assumes "\<bar>1 + j\<bar> \<le> 2 ^ 53"
  shows "float_add (Finite 1) (Finite (of_int j)) = Finite (of_int (1 + j))"
  using float_of_real_finite[of "of_int (1 + j)" "\<bar>1 + j\<bar>"] assms round_double_of_int[OF assms]
  by simp

subsection \<open>Truncation\<close>

lemma py_int_of_int: "py_int (of_int n) = n"
  by (simp add: py_int_def)

lemma py_int_nonneg: "0 \<le> x \<Longrightarrow> py_int x = \<lfloor>x\<rfloor>"
  by (simp add: py_int_def)

lemma py_int_mono: "x \<le> y \<Longrightarrow> py_int x \<le> py_int y"
proof -
  assume xy: "x \<le> y"
  show ?thesis
  proof (cases "0 \<le> x")
    case True
    with xy show ?thesis by (simp add: py_int_def floor_mono)
  next
    case False
    then have cx: "\<lceil>x\<rceil> \<le> 0" by (simp add: ceiling_le_zero)
    show ?thesis
    proof (cases "0 \<le> y")
      case True
      then have "0 \<le> \<lfloor>y\<rfloor>" by simp
      moreover have "py_int x = \<lceil>x\<rceil>" "py_int y = \<lfloor>y\<rfloor>"
        using \<open>\<not> 0 \<le> x\<close> True by (simp_all add: py_int_def)
      ultimately show ?thesis using cx by linarith
    next
      case False
      with \<open>\<not> 0 \<le> x\<close> xy show ?thesis by (simp add: py_int_def ceiling_mono)
    qed
  qed
qed

subsection \<open>The loops of the simulator\<close>



lemma year_loop_traj:
  assumes "length rets \<le> length infls" and "k \<le> length rets"
      and "portfolio_after wd infls rets s k = Inr p"
      and "0 < k \<Longrightarrow> year_withdrawal wd infls (k - 1) = Inr w"
  shows "year_loop wd infls k (drop k rets) w p =
           (case find (\<lambda>j. year_stops (portfolio_after wd infls rets s (Suc j)))
                   [k ..< length rets] of
              Some j \<Rightarrow> run_result True (portfolio_after wd infls rets s (Suc j))
            | None \<Rightarrow> run_result False (portfolio_after wd infls rets s (length rets)))"
  using assms
proof (induction "length rets - k" arbitrary: k w p)
  case 0
  then show ?case by simp
next
  case (Suc n)
  then have lt: "k < length rets" by simp
  have dr: "drop k rets = rets ! k # drop (Suc k) rets"
    using lt by (simp add: Cons_nth_drop_Suc)
  have up: "[k ..< length rets] = k # [Suc k ..< length rets]"
    using lt by (simp add: upt_conv_Cons)
  have inr: "\<not> length infls \<le> k" using lt Suc.prems(1) by simp
  have wk: "(if k = 0 then Inr wd else grow w (infls ! k)) = year_withdrawal wd infls k"
  proof (cases k)
    case 0 then show ?thesis by simp
  next
    case (Suc k') with Suc.prems(4) show ?thesis by simp
  qed
  show ?case
  proof (cases "year_withdrawal wd infls k")
    case (Inl e)
    then have "portfolio_after wd infls rets s (Suc k) = Inl e"
      using Suc.prems(3) by simp
    then show ?thesis
      unfolding dr up using inr wk Inl by (simp add: Let_def)
  next
    case (Inr w')
    then have pa: "portfolio_after wd infls rets s (Suc k) = grow (p - w') (rets ! k)"
      using Suc.prems(3) by simp
    show ?thesis
    proof (cases "grow (p - w') (rets ! k)")
      case (Inl e)
      then show ?thesis
        unfolding dr up using inr wk Inr pa by (simp add: Let_def)
    next
      case g: (Inr v)
      show ?thesis
      proof (cases "v \<le> 0")
        case True
        then show ?thesis
          unfolding dr up using inr wk Inr pa g by (simp add: Let_def)
      next
        case False
        have n: "n = length rets - Suc k" using Suc.hyps(2) by simp
        have le: "Suc k \<le> length rets" using lt by simp
        have pv: "portfolio_after wd infls rets s (Suc k) = Inr v" using pa g by simp
        have yw: "0 < Suc k \<Longrightarrow> year_withdrawal wd infls (Suc k - 1) = Inr w'"
          using Inr by simp
        note ih = Suc.hyps(1)[OF n Suc.prems(1) le pv yw]
        show ?thesis
          unfolding dr up using inr wk Inr pa g False ih by (simp add: Let_def)
      qed
    qed
  qed
qed


lemma year_loop_sign:
  assumes "year_loop wd infls index rets w s = Inr (v, bk)" "0 < s"
  shows "if bk then v \<le> 0 else 0 < v"
  using assms
proof (induction rets arbitrary: index w s)
  case Nil
  then show ?case by auto
next
  case (Cons i rest)
  then show ?case
    by (auto simp: Let_def split: if_splits sum.splits)
qed


lemma simulate_run_sign:
  assumes "simulate_run p returns infl_rate d = Inr (v, bk)" "0 < start_value p"
  shows "if bk then v \<le> 0 else 0 < v"
  using assms
  by (auto simp: simulate_run_def Let_def split: sum.splits prod.splits dest!: year_loop_sign)

lemma sim_loop_step:
  assumes "c < num_sim p" "simulate_run p returns infl_rate (rng c) = Inr (v, bk)"
  shows "sim_loop p returns infl_rate rng c b out =
           sim_loop p returns infl_rate rng (Suc c) (if bk then b + 1 else b)
             (out @ [if bk then 0 else v])"
  using assms by (subst sim_loop.simps) simp

lemma sim_loop_done:
  "\<not> c < num_sim p \<Longrightarrow> sim_loop p returns infl_rate rng c b out = Inr (out, b)"
  by (subst sim_loop.simps) simp

lemma sim_loop_Inr_run:
  assumes "sim_loop p returns infl_rate rng c b out = Inr r" "c < num_sim p"
  shows "\<exists>v bk. simulate_run p returns infl_rate (rng c) = Inr (v, bk)"
  using assms by (subst (asm) sim_loop.simps) (auto split: sum.splits)



lemma sim_loop_cong:
  assumes "\<forall>k. c \<le> k \<and> k < num_sim p \<longrightarrow> rng1 k = rng2 k"
  shows "sim_loop p returns infl_rate rng1 c b out = sim_loop p returns infl_rate rng2 c b out"
  using assms
proof (induction "num_sim p - c" arbitrary: c b out)
  case 0
  then show ?case by (simp add: sim_loop_done)
next
  case (Suc n)
  then have lt: "c < num_sim p" by simp
  have n: "n = num_sim p - Suc c" using Suc.hyps(2) by simp
  have eq: "rng1 c = rng2 c" using Suc.prems lt by simp
  have rest: "\<forall>k. Suc c \<le> k \<and> k < num_sim p \<longrightarrow> rng1 k = rng2 k"
    using Suc.prems by simp
  note ih = Suc.hyps(1)[OF n rest]
  show ?case
    by (subst sim_loop.simps, subst (2) sim_loop.simps) (simp add: eq ih split: sum.splits)
qed



lemma sim_loop_zeros:
  assumes "sim_loop p returns infl_rate rng c b out = Inr (out', b')"
      and "0 < start_value p"
  shows "b' + length (filter (\<lambda>x. x = 0) out) = b + length (filter (\<lambda>x. x = 0) out')"
  using assms
proof (induction "num_sim p - c" arbitrary: c b out)
  case 0
  then show ?case by (simp add: sim_loop_done)
next
  case (Suc n)
  then have lt: "c < num_sim p" by simp
  obtain v bk where run: "simulate_run p returns infl_rate (rng c) = Inr (v, bk)"
    using sim_loop_Inr_run[OF Suc.prems(1) lt] by blast
  have n: "n = num_sim p - Suc c" using Suc.hyps(2) by simp
  have rec: "sim_loop p returns infl_rate rng (Suc c) (if bk then b + 1 else b)
             (out @ [if bk then 0 else v]) = Inr (out', b')"
    using Suc.prems(1) by (simp add: sim_loop_step[where rng=rng, OF lt run])
  have sg: "if bk then v \<le> 0 else 0 < v"
    using simulate_run_sign[OF run Suc.prems(2)] .
  from Suc.hyps(1)[OF n rec Suc.prems(2)] sg show ?case
    by (auto split: if_splits)
qed

subsection \<open>Evaluating float arithmetic\<close>

lemma float_of_real_zero: "float_of_real 0 = Finite 0"
  using float_of_real_finite[of 0 0] by simp

lemma float_of_real_one: "float_of_real 1 = Finite 1"
  using float_of_real_finite[of 1 1] by simp

lemma float_of_real_numeral:
  "(numeral n :: int) \<le> 2 ^ 53 \<Longrightarrow> float_of_real (numeral n) = Finite (numeral n)"
  using float_of_real_finite[of "numeral n" "numeral n"] by (simp add: round_double_numeral)

lemma float_of_real_neg_numeral:
  "(numeral n :: int) \<le> 2 ^ 53 \<Longrightarrow> float_of_real (- numeral n) = Finite (- numeral n)"
  using float_of_real_finite[of "- numeral n" "numeral n"]
  by (simp add: round_double_numeral round_double_minus)

lemmas float_eval =
  grow_def int_to_float_def float_of_real_zero float_of_real_one float_of_real_numeral
  float_of_real_neg_numeral py_int_def Let_def

lemma grow_test: "grow 99000 (Finite 1) = Inr 198000" "grow 97000 (Finite (- 1)) = Inr 0"
  "grow 1000 (Finite 0) = Inr 1000" "grow (- 5) (Finite 1) = Inr (- 10)"
  by (simp_all add: float_eval)

lemma sim_example:
  "simulator \<lparr>start_value = 100000, withdrawal = 1000, min_years = 4,
                most_likely_years = 5, max_years = 8, num_sim = 3\<rparr>
     [Finite 1, Finite 0, Finite 0, Finite 0, Finite 0, Finite (- 1)] [Finite 0]
     (\<lambda>k. (3 * k, 1 / 4)) =
   Inr ([194000, 0, 194000], 1)"
  by (simp add: simulator_def sim_loop.simps simulate_run_def randrange_def duration_def
        triangular_def py_range_def real_sqrt_divide upt_rec float_eval)

lemma round_double_example_sum:
  "round_double (1 + 5404319552844595 / 36028797018963968) =
     2589569785738035 / 2251799813685248"
  by (subst round_double_eval[where k = 1022]) (simp_all add: round_half_even_def)

lemma round_double_example_product:
  "round_double (99000 * (2589569785738035 / 2251799813685248)) =
     7823712426393599 / 68719476736"
  by (subst round_double_eval[where k = 1038]) (simp_all add: round_half_even_def)

lemma grow_example:
  "grow 99000 (Finite (5404319552844595 / 36028797018963968)) = Inr 113849"
proof -
  have "float_of_real (1 + 5404319552844595 / 36028797018963968) =
          Finite (round_double (1 + 5404319552844595 / 36028797018963968))"
    by (rule float_of_real_finite[where m = 2]) simp_all
  then have a: "float_add (Finite 1) (Finite (5404319552844595 / 36028797018963968)) =
             Finite (2589569785738035 / 2251799813685248)"
    by (simp only: float_add.simps round_double_example_sum)
  have "float_of_real (99000 * (2589569785738035 / 2251799813685248)) =
          Finite (round_double (99000 * (2589569785738035 / 2251799813685248)))"
    by (rule float_of_real_finite[where m = 198000]) simp_all
  then have b: "float_mul (Finite 99000) (Finite (2589569785738035 / 2251799813685248)) =
             Finite (7823712426393599 / 68719476736)"
    by (simp only: float_mul.simps round_double_example_product)
  have c: "int_to_float 99000 = Inr (Finite 99000)"
    by (simp add: int_to_float_def float_of_real_numeral)
  have "grow 99000 (Finite (5404319552844595 / 36028797018963968)) =
          float_to_int (float_mul (Finite 99000) (Finite (2589569785738035 / 2251799813685248)))"
    unfolding grow_def Let_def a c by (simp only: sum.case)
  also have "\<dots> = float_to_int (Finite (7823712426393599 / 68719476736))"
    by (simp only: b)
  also have "\<dots> = Inr 113849"
    by (simp add: py_int_def)
  finally show ?thesis .
qed

lemma round_double_example_loss_sum:
  "round_double (1 + - (8106479329266893 / 9007199254740992)) =
     900719925474099 / 9007199254740992"
  by (subst round_double_eval[where k = 1018]) (simp_all add: round_half_even_def)

lemma round_double_example_loss_product:
  "round_double (10 * (900719925474099 / 9007199254740992)) =
     4503599627370495 / 4503599627370496"
  by (subst round_double_eval[where k = 1021]) (simp_all add: round_half_even_def)

lemma grow_example_loss:
  "grow 10 (Finite (- (8106479329266893 / 9007199254740992))) = Inr 0"
proof -
  have "float_of_real (1 + - (8106479329266893 / 9007199254740992)) =
          Finite (round_double (1 + - (8106479329266893 / 9007199254740992)))"
    by (rule float_of_real_finite[where m = 2]) simp_all
  then have a: "float_add (Finite 1) (Finite (- (8106479329266893 / 9007199254740992))) =
             Finite (900719925474099 / 9007199254740992)"
    by (simp only: float_add.simps round_double_example_loss_sum)
  have "float_of_real (10 * (900719925474099 / 9007199254740992)) =
          Finite (round_double (10 * (900719925474099 / 9007199254740992)))"
    by (rule float_of_real_finite[where m = 10]) simp_all
  then have b: "float_mul (Finite 10) (Finite (900719925474099 / 9007199254740992)) =
             Finite (4503599627370495 / 4503599627370496)"
    by (simp only: float_mul.simps round_double_example_loss_product)
  have c: "int_to_float 10 = Inr (Finite 10)"
    by (simp add: int_to_float_def float_of_real_numeral)
  have "grow 10 (Finite (- (8106479329266893 / 9007199254740992))) =
          float_to_int (float_mul (Finite 10) (Finite (900719925474099 / 9007199254740992)))"
    unfolding grow_def Let_def a c by (simp only: sum.case)
  also have "\<dots> = float_to_int (Finite (4503599627370495 / 4503599627370496))"
    by (simp only: b)
  also have "\<dots> = Inr 0"
    by (simp add: py_int_def)
  finally show ?thesis .
qed

lemma year_loop_example_loss:
  "year_loop 1 [Finite 0] 0 [Finite (- (8106479329266893 / 9007199254740992))] 0 11 =
     Inr (0, True)"
  by (simp add: grow_example_loss)


lemma zero_year_example:
  "simulator \<lparr>start_value = 9007199254740993, withdrawal = 1000, min_years = 0,
                most_likely_years = 1, max_years = 2, num_sim = 1\<rparr>
     [Finite 0] [Finite 0] (\<lambda>k. (0, 0)) = Inr ([9007199254740993], 0)"
  by (simp add: simulator_def sim_loop.simps simulate_run_def randrange_def duration_def
        triangular_def py_range_def py_int_def)

subsection \<open>Minimum, maximum, mean and rounding\<close>

lemma py_min_Min: "xs \<noteq> [] \<Longrightarrow> py_min xs = Inr (Min (set xs))"
proof (cases xs)
  case Nil
  assume "xs \<noteq> []" with Nil show ?thesis by simp
next
  case (Cons x ys)
  have "(\<lambda>y m :: int. if y < m then y else m) = min"
    by (auto simp: fun_eq_iff min_def)
  moreover have "Min (set (x # ys)) = fold min ys x"
    by (rule Min.set_eq_fold)
  ultimately show ?thesis
    using Cons by (simp del: set_simps)
qed

lemma py_max_Max: "xs \<noteq> [] \<Longrightarrow> py_max xs = Inr (Max (set xs))"
proof (cases xs)
  case Nil
  assume "xs \<noteq> []" with Nil show ?thesis by simp
next
  case (Cons x ys)
  have "(\<lambda>y m :: int. if y > m then y else m) = max"
    by (auto simp: fun_eq_iff max_def)
  moreover have "Max (set (x # ys)) = fold max ys x"
    by (rule Max.set_eq_fold)
  ultimately show ?thesis
    using Cons by (simp del: set_simps)
qed

lemma sum_list_lower:
  fixes xs :: "int list"
  shows "(\<And>x. x \<in> set xs \<Longrightarrow> m \<le> x) \<Longrightarrow> int (length xs) * m \<le> sum_list xs"
  by (induction xs) (auto simp: algebra_simps intro: add_mono)

lemma sum_list_upper:
  fixes xs :: "int list"
  shows "(\<And>x. x \<in> set xs \<Longrightarrow> x \<le> m) \<Longrightarrow> sum_list xs \<le> int (length xs) * m"
  by (induction xs) (auto simp: algebra_simps intro: add_mono)

lemma mean_bounds:
  fixes xs :: "int list"
  assumes "xs \<noteq> []"
  shows "real_of_int (Min (set xs)) \<le> real_of_int (sum_list xs) / real (length xs)"
    and "real_of_int (sum_list xs) / real (length xs) \<le> real_of_int (Max (set xs))"
proof -
  have n: "0 < real (length xs)" using assms by simp
  have "int (length xs) * Min (set xs) \<le> sum_list xs"
    by (rule sum_list_lower) simp
  then have "real_of_int (int (length xs) * Min (set xs)) \<le> real_of_int (sum_list xs)"
    by (simp only: of_int_le_iff)
  then have "real (length xs) * real_of_int (Min (set xs)) \<le> real_of_int (sum_list xs)"
    by simp
  then show "real_of_int (Min (set xs)) \<le> real_of_int (sum_list xs) / real (length xs)"
    using n by (simp add: pos_le_divide_eq mult.commute)
  have "sum_list xs \<le> int (length xs) * Max (set xs)"
    by (rule sum_list_upper) simp
  then have "real_of_int (sum_list xs) \<le> real_of_int (int (length xs) * Max (set xs))"
    by (simp only: of_int_le_iff)
  then have "real_of_int (sum_list xs) \<le> real (length xs) * real_of_int (Max (set xs))"
    by simp
  then show "real_of_int (sum_list xs) / real (length xs) \<le> real_of_int (Max (set xs))"
    using n by (simp add: pos_divide_le_eq mult.commute)
qed

lemma py_int_between:
  assumes "real_of_int a \<le> x" "x \<le> real_of_int b"
  shows "a \<le> py_int x \<and> py_int x \<le> b"
proof -
  have "py_int (real_of_int a) \<le> py_int x" using assms(1) by (rule py_int_mono)
  moreover have "py_int x \<le> py_int (real_of_int b)" using assms(2) by (rule py_int_mono)
  ultimately show ?thesis by (simp add: py_int_of_int)
qed

lemma int_true_div_finite:
  assumes "b \<noteq> 0" "\<bar>real_of_int a / real_of_int b\<bar> \<le> real_of_int m" "m \<le> 2 ^ 53"
  shows "int_true_div a b = Inr (round_double (real_of_int a / real_of_int b))"
  using assms(1) float_of_real_finite[OF assms(2,3)] by (simp add: int_true_div_def)

lemma round_double_between:
  assumes "real_of_int a \<le> x" "x \<le> real_of_int b" "\<bar>a\<bar> \<le> 2 ^ 53" "\<bar>b\<bar> \<le> 2 ^ 53"
  shows "real_of_int a \<le> round_double x \<and> round_double x \<le> real_of_int b"
proof -
  have "round_double (real_of_int a) \<le> round_double x" "round_double x \<le> round_double (real_of_int b)"
    using assms(1,2) by (simp_all only: round_double_mono)
  then show ?thesis
    unfolding round_double_of_int[OF assms(3)] round_double_of_int[OF assms(4)] by simp
qed

lemma py_round1_range:
  assumes "0 \<le> x" "x \<le> 100"
  shows "0 \<le> py_round1 x \<and> py_round1 x \<le> 100"
proof -
  have "round_half_even (of_int 0) \<le> round_half_even (x * 10)"
    by (rule round_half_even_mono) (use assms in simp)
  then have a: "0 \<le> round_half_even (x * 10)" by (simp only: round_half_even_of_int)
  have "round_half_even (x * 10) \<le> round_half_even (of_int 1000)"
    by (rule round_half_even_mono) (use assms in simp)
  then have b: "round_half_even (x * 10) \<le> 1000" by (simp only: round_half_even_of_int)
  have "real_of_int 0 \<le> real_of_int (round_half_even (x * 10)) / 10"
    "real_of_int (round_half_even (x * 10)) / 10 \<le> real_of_int 100"
    using a b by simp_all
  from round_double_between[OF this] show ?thesis
    by (simp add: py_round1_def)
qed

lemma round_double_example_big: "round_double 9007199254740993 = 9007199254740992"
  by (subst round_double_eval[where k = 1075]) (simp_all add: round_half_even_def)

lemma int_true_div_example: "int_true_div 100 2000 = Inr (3602879701896397 / 72057594037927936)"
proof -
  have r: "round_double (100 / 2000) = 3602879701896397 / 72057594037927936"
    by (subst round_double_eval[where k = 1017]) (simp_all add: round_half_even_def)
  have "float_of_real (100 / 2000) = Finite (round_double (100 / 2000))"
    by (rule float_of_real_finite[where m = 1]) simp_all
  then show ?thesis
    unfolding r by (simp add: int_true_div_def)
qed

lemma py_round1_example:
  "py_round1 (3602879701896397 / 72057594037927936) = 3602879701896397 / 36028797018963968"
proof -
  have r: "round_double (1 / 10) = 3602879701896397 / 36028797018963968"
    by (subst round_double_eval[where k = 1018]) (simp_all add: round_half_even_def)
  have "round_half_even (3602879701896397 / 72057594037927936 * 10) = 1"
    by (simp add: round_half_even_def)
  then show ?thesis
    unfolding py_round1_def by (simp only: r of_int_1)
qed

subsection \<open>The triangular sample\<close>





subsection \<open>The mean of small outcomes\<close>

lemma power_two_cover:
  assumes "0 < n"
  shows "\<exists>j. (n :: int) \<le> 2 ^ j \<and> (2 :: int) ^ j \<le> 2 * n"
proof (cases "n = 1")
  case True
  then have "n \<le> 2 ^ 0 \<and> (2 :: int) ^ 0 \<le> 2 * n" by simp
  then show ?thesis by blast
next
  case False
  with assms have pos: "0 < n - 1" by simp
  define w where "w = nat (bitlen (n - 1) - 1)"
  from bitlen_bounds[OF pos] have lo: "2 ^ w \<le> n - 1" and hi: "n - 1 < 2 ^ nat (bitlen (n - 1))"
    by (simp_all add: w_def)
  have "1 \<le> bitlen (n - 1)" using pos by (simp add: bitlen_alt_def)
  then have "nat (bitlen (n - 1)) = Suc w" by (simp add: w_def)
  with hi have "n - 1 < 2 ^ Suc w" by simp
  then have "n \<le> 2 ^ Suc w" by simp
  moreover have "(2 :: int) ^ Suc w \<le> 2 * n" using lo by simp
  ultimately show ?thesis by blast
qed

lemma round_double_div_floor:
  assumes s: "0 \<le> s" and n: "0 < n" and small: "s + n \<le> 2 ^ 52"
  shows "\<lfloor>round_double (real_of_int s / real_of_int n)\<rfloor> = s div n"
proof -
  define m where "m = s div n"
  define q where "q = real_of_int s / real_of_int n"
  have m0: "0 \<le> m" using s n by (simp add: m_def pos_imp_zdiv_nonneg_iff)
  have sm: "s = n * m + s mod n" by (simp add: m_def)
  have r: "0 \<le> s mod n" "s mod n \<le> n - 1" using n by simp_all
  have nm: "n * m \<le> s" using sm r(1) by linarith
  have nr: "real_of_int n > 0" using n by simp
  have qm: "q = real_of_int m + real_of_int (s mod n) / real_of_int n"
  proof -
    have "real_of_int s = real_of_int n * real_of_int m + real_of_int (s mod n)"
      by (metis sm of_int_add of_int_mult)
    then show ?thesis using nr by (simp add: q_def field_simps)
  qed
  have lower: "real_of_int m \<le> q"
    unfolding qm using r(1) nr by simp
  have upper: "q \<le> real_of_int m + 1 - 1 / real_of_int n"
  proof -
    have "real_of_int (s mod n) \<le> real_of_int n - 1"
      using r(2) by (metis of_int_1 of_int_diff of_int_le_iff)
    then have "real_of_int (s mod n) / real_of_int n \<le> (real_of_int n - 1) / real_of_int n"
      using nr by (simp add: divide_right_mono)
    also have "\<dots> = 1 - 1 / real_of_int n" using nr by (simp add: field_simps)
    finally show ?thesis unfolding qm by simp
  qed
  obtain j where j: "n \<le> 2 ^ j" "(2 :: int) ^ j \<le> 2 * n"
    using power_two_cover[OF n] by blast
  define M where "M = (m + 1) * 2 ^ j - 1"
  have "(m + 1) * 2 ^ j \<le> (m + 1) * (2 * n)"
    using j(2) m0 by (intro mult_left_mono) simp_all
  also have "\<dots> = 2 * (n * m + n)" by (simp add: algebra_simps)
  also have "\<dots> \<le> 2 * (s + n)" using nm by simp
  also have "\<dots> \<le> 2 * 2 ^ 52" using small by simp
  finally have Mle: "(m + 1) * 2 ^ j \<le> 2 ^ 53" by simp
  have "1 \<le> (m + 1) * 2 ^ j"
  proof -
    have "1 * 1 \<le> (m + 1) * (2 :: int) ^ j"
      using m0 by (intro mult_mono) simp_all
    then show ?thesis by simp
  qed
  with Mle have Mabs: "\<bar>M\<bar> \<le> 2 ^ 53" by (simp add: M_def)
  have "(2 :: int) ^ j \<le> 2 ^ 53"
  proof -
    have "(2 :: int) ^ j \<le> 1 * 2 ^ j" by simp
    also have "\<dots> \<le> (m + 1) * 2 ^ j" using m0 by (intro mult_right_mono) simp_all
    finally have "(2 :: int) ^ j \<le> (m + 1) * 2 ^ j" .
    then show ?thesis using Mle by (rule order_trans)
  qed
  then have "j \<le> 53" by (simp only: power_increasing_iff one_less_numeral_iff semiring_norm)
  then have j1074: "j \<le> 1074" by simp
  define d where "d = real_of_int M / 2 ^ j"
  have dval: "d = real_of_int m + 1 - 1 / 2 ^ j"
    by (simp add: d_def M_def field_simps)
  have rd_d: "round_double d = d"
    unfolding d_def using Mabs j1074 by (rule round_double_dyadic)
  have "real_of_int n \<le> 2 ^ j"
    using j(1) by (metis of_int_le_iff of_int_numeral of_int_power)
  then have "1 / 2 ^ j \<le> 1 / real_of_int n"
    using nr by (simp add: frac_le)
  with upper have "q \<le> d" unfolding dval by simp
  then have "round_double q \<le> round_double d" by (rule round_double_mono)
  then have "round_double q \<le> d" by (simp only: rd_d)
  moreover have "d < real_of_int m + 1" unfolding dval by simp
  ultimately have up: "round_double q < real_of_int m + 1" by simp
  have "\<bar>m\<bar> \<le> 2 ^ 53"
  proof -
    have "m * 1 \<le> m * n" using m0 n by (intro mult_left_mono) simp_all
    then have "m \<le> s" using nm by (simp add: mult.commute)
    then show ?thesis using m0 small n by simp
  qed
  then have "round_double (real_of_int m) = real_of_int m" by (rule round_double_of_int)
  moreover have "round_double (real_of_int m) \<le> round_double q"
    using lower by (rule round_double_mono)
  ultimately have lo: "real_of_int m \<le> round_double q" by simp
  have "\<lfloor>round_double q\<rfloor> = m"
    using lo up by (intro floor_unique) simp_all
  then show ?thesis by (simp add: q_def m_def)
qed

section \<open>Results about the simulator\<close>




text \<open>
  C9. The result of the simulator is a function of the parameters, the two series and
  the values the generator yields for the runs it makes: two generator streams that
  agree on the first \<open>num_sim\<close> runs give the same outcome sequence and the same
  bankrupt count (and the same exception, if one is raised).
\<close>

theorem simulator_deterministic:
  assumes "\<forall>k < num_sim p. rng1 k = rng2 k"
  shows "simulator p returns infl_rate rng1 = simulator p returns infl_rate rng2"
  unfolding simulator_def
  by (rule sim_loop_cong) (use assms in simp)

theorem simulator_deterministic_witness:
  "simulator \<lparr>start_value = 100000, withdrawal = 1000, min_years = 4,
               most_likely_years = 5, max_years = 8, num_sim = 3\<rparr>
       [Finite (1 / 8)] [Finite 0] (\<lambda>k. (k, 1 / 4)) =
   simulator \<lparr>start_value = 100000, withdrawal = 1000, min_years = 4,
               most_likely_years = 5, max_years = 8, num_sim = 3\<rparr>
       [Finite (1 / 8)] [Finite 0] (\<lambda>k. if k < 3 then (k, 1 / 4) else (7, 1 / 2))"
  using simulator_deterministic [of
      "\<lparr>start_value = 100000, withdrawal = 1000, min_years = 4,
        most_likely_years = 5, max_years = 8, num_sim = 3\<rparr>"
      "\<lambda>k. (k, 1 / 4)" "\<lambda>k. if k < 3 then (k, 1 / 4) else (7, 1 / 2)" "[Finite (1 / 8)]" "[Finite 0]"]
  by simp

text \<open>
  C2. The year loop of a run follows the year-by-year rule: the withdrawal of year 0 is
  the base withdrawal and each later withdrawal is the one of the year before times one
  plus the year's inflation, truncated toward zero; each year the withdrawal is
  subtracted first and the difference is then multiplied by one plus the year's return
  and truncated toward zero, all products in float arithmetic. The loop ends with the
  first year that raises or leaves the portfolio at or below zero (flagged bankrupt), or
  else with the portfolio after the last year (flagged solvent).
\<close>

theorem year_loop_order_of_operations:
  assumes "length rets \<le> length infls"
  shows "year_loop wd infls 0 rets w0 s =
           (case first_stop wd infls rets s of
              Some k \<Rightarrow> run_result True (portfolio_after wd infls rets s (Suc k))
            | None \<Rightarrow> run_result False (portfolio_after wd infls rets s (length rets)))"
  using year_loop_traj[OF assms, of 0 wd s s w0] by (simp add: first_stop_def)

theorem year_loop_order_of_operations_witness:
  "year_loop 1000 [Finite 0, Finite 1] 0
     [Finite (5404319552844595 / 36028797018963968), Finite 0] 0 100000 =
     Inr (111849, False)"
proof -
  have g: "grow 1000 (Finite 1) = Inr 2000" "grow 111849 (Finite 0) = Inr 111849"
    by (simp_all add: float_eval)
  show ?thesis
    by (subst year_loop_order_of_operations)
       (simp_all add: first_stop_def grow_example g numeral_2_eq_2)
qed





text \<open>
  C10. Under inputs that pass the checks, the bankrupt count the simulator returns is
  the number of entries of the outcome sequence that are 0.
\<close>

theorem bankrupt_count_is_zero_count:
  assumes valid: "check_inputs p = Inr ()"
      and sim: "simulator p returns infl_rate rng = Inr (outcome, b)"
  shows "b = length (filter (\<lambda>x. x = 0) outcome)"
proof -
  have pos: "0 < start_value p"
    using valid by (auto simp: check_inputs_def split: if_splits)
  from sim have "sim_loop p returns infl_rate rng 0 0 [] = Inr (outcome, b)"
    by (simp add: simulator_def)
  from sim_loop_zeros[OF this pos] show ?thesis by simp
qed

theorem bankrupt_count_is_zero_count_witness:
  "(1 :: nat) = length (filter (\<lambda>x. x = 0) [194000, 0, 194000 :: int])"
  by (rule bankrupt_count_is_zero_count
        [of "\<lparr>start_value = 100000, withdrawal = 1000, min_years = 4,
               most_likely_years = 5, max_years = 8, num_sim = 3\<rparr>"
            "[Finite 1, Finite 0, Finite 0, Finite 0, Finite 0, Finite (- 1)]" "[Finite 0]" "\<lambda>k. (3 * k, 1 / 4)"])
     (simp_all add: check_inputs_def sim_example)

section \<open>Results about the duration of a run\<close>



section \<open>Results about the aggregator\<close>

text \<open>
  C7. For a non-empty outcome sequence whose entries are at most \<open>2\<^sup>5\<^sup>3\<close> in
  magnitude and a bankrupt count of at most its length, \<^verbatim>\<open>bankrupt_prob\<close> raises
  nothing; the odds are the float quotient \<open>100 * bankrupt_count / len(outcome)\<close>
  rounded to one decimal place and lie between 0 and 100; the average is the float
  quotient of the sum by the length truncated toward zero; the minimum and maximum are
  those of the sequence, and the average lies between them. When the sum is not negative
  and sum plus length is at most \<open>2\<^sup>5\<^sup>2\<close>, the average is the floor of the exact
  quotient.
\<close>

theorem bankrupt_prob_statistics:
  assumes ne: "outcome \<noteq> []"
      and bc: "b \<le> length outcome"
      and bound: "\<forall>x \<in> set outcome. \<bar>x\<bar> \<le> 2 ^ 53"
  shows "\<exists>st. bankrupt_prob outcome b = Inr st
           \<and> odds st = py_round1 (round_double (100 * real b / real (length outcome)))
           \<and> 0 \<le> odds st \<and> odds st \<le> 100
           \<and> average st =
               py_int (round_double (real_of_int (sum_list outcome) / real (length outcome)))
           \<and> minimum st = Min (set outcome)
           \<and> maximum st = Max (set outcome)
           \<and> minimum st \<le> average st \<and> average st \<le> maximum st
           \<and> (0 \<le> sum_list outcome \<and> sum_list outcome + int (length outcome) \<le> 2 ^ 52
                \<longrightarrow> average st =
                    \<lfloor>real_of_int (sum_list outcome) / real (length outcome)\<rfloor>)"
proof -
  let ?n = "real (length outcome)"
  let ?x = "100 * real b / ?n"
  let ?mean = "real_of_int (sum_list outcome) / ?n"
  let ?lo = "Min (set outcome)" and ?hi = "Max (set outcome)"
  let ?st = "\<lparr>odds = py_round1 (round_double ?x), average = py_int (round_double ?mean),
              minimum = ?lo, maximum = ?hi\<rparr>"
  have n: "0 < ?n" and n0: "int (length outcome) \<noteq> 0" using ne by simp_all
  have x0: "0 \<le> ?x" using n by simp
  have "real b \<le> ?n" using bc by simp
  then have x100: "?x \<le> 100" using n by (simp add: pos_divide_le_eq)
  have xq: "real_of_int (100 * int b) / real_of_int (int (length outcome)) = ?x"
    by simp
  have q: "int_true_div (100 * int b) (int (length outcome)) = Inr (round_double ?x)"
    using int_true_div_finite[OF n0, of "100 * int b" 100] x0 x100 unfolding xq by simp
  have "real_of_int 0 \<le> ?x" "?x \<le> real_of_int 100" using x0 x100 by simp_all
  from round_double_between[OF this] have rq: "0 \<le> round_double ?x" "round_double ?x \<le> 100"
    by simp_all
  note od = py_round1_range[OF rq]
  have lo_in: "?lo \<in> set outcome" and hi_in: "?hi \<in> set outcome"
    using ne by (simp_all add: Min_in Max_in)
  then have lo53: "\<bar>?lo\<bar> \<le> 2 ^ 53" and hi53: "\<bar>?hi\<bar> \<le> 2 ^ 53"
    using bound by blast+
  note mb = mean_bounds[OF ne]
  have "\<bar>?mean\<bar> \<le> real_of_int (max \<bar>?lo\<bar> \<bar>?hi\<bar>)"
    using mb by (simp add: abs_le_iff max_def) linarith
  moreover have "max \<bar>?lo\<bar> \<bar>?hi\<bar> \<le> 2 ^ 53" using lo53 hi53 by simp
  moreover have "real_of_int (sum_list outcome) / real_of_int (int (length outcome)) = ?mean"
    by simp
  ultimately have m: "int_true_div (sum_list outcome) (int (length outcome)) =
      Inr (round_double ?mean)"
    using int_true_div_finite[OF n0, of "sum_list outcome" "max \<bar>?lo\<bar> \<bar>?hi\<bar>"] by simp
  note rm = round_double_between[OF mb lo53 hi53]
  have av: "?lo \<le> py_int (round_double ?mean) \<and> py_int (round_double ?mean) \<le> ?hi"
    using rm by (intro py_int_between) simp_all
  have fl: "0 \<le> sum_list outcome \<and> sum_list outcome + int (length outcome) \<le> 2 ^ 52
      \<longrightarrow> py_int (round_double ?mean) = \<lfloor>?mean\<rfloor>"
  proof
    assume h: "0 \<le> sum_list outcome \<and> sum_list outcome + int (length outcome) \<le> 2 ^ 52"
    have npos: "0 < int (length outcome)" using ne by simp
    have e: "real_of_int (sum_list outcome) / real_of_int (int (length outcome)) = ?mean"
      by simp
    have "\<lfloor>round_double (real_of_int (sum_list outcome) / real_of_int (int (length outcome)))\<rfloor>
            = sum_list outcome div int (length outcome)"
      using h npos by (intro round_double_div_floor) simp_all
    moreover have "\<lfloor>real_of_int (sum_list outcome) / real_of_int (int (length outcome))\<rfloor>
            = sum_list outcome div int (length outcome)"
      by (rule floor_divide_of_int_eq)
    ultimately have "\<lfloor>round_double ?mean\<rfloor> = \<lfloor>?mean\<rfloor>"
      unfolding e by simp
    moreover have "0 \<le> ?mean" using h n by simp
    then have "round_double 0 \<le> round_double ?mean" by (rule round_double_mono)
    then have "0 \<le> round_double ?mean" by simp
    ultimately show "py_int (round_double ?mean) = \<lfloor>?mean\<rfloor>"
      by (simp add: py_int_nonneg)
  qed
  have run: "bankrupt_prob outcome b = Inr ?st"
    using ne q m by (simp add: bankrupt_prob_def Let_def py_min_Min py_max_Max)
  have "odds ?st = py_round1 (round_double ?x)" "0 \<le> odds ?st" "odds ?st \<le> 100"
    "average ?st = py_int (round_double ?mean)"
    "minimum ?st = ?lo" "maximum ?st = ?hi"
    "minimum ?st \<le> average ?st" "average ?st \<le> maximum ?st"
    using od av by simp_all
  moreover have "0 \<le> sum_list outcome \<and> sum_list outcome + int (length outcome) \<le> 2 ^ 52
      \<longrightarrow> average ?st = \<lfloor>?mean\<rfloor>"
    using fl by simp
  ultimately show ?thesis using run by blast
qed

theorem bankrupt_prob_statistics_witness:
  "bankrupt_prob [194000, 0, 194000] 1 =
     Inr \<lparr>odds = 2343279181116211 / 70368744177664, average = 129333,
          minimum = 0, maximum = 194000\<rparr>"
proof -
  let ?out = "[194000, 0, 194000] :: int list"
  have "?out \<noteq> []" "1 \<le> length ?out" "\<forall>x \<in> set ?out. \<bar>x\<bar> \<le> 2 ^ 53"
    by simp_all
  from bankrupt_prob_statistics [OF this]
  obtain st where run: "bankrupt_prob ?out 1 = Inr st"
    and o: "odds st = py_round1 (round_double (100 * real 1 / real (length ?out)))"
    and a: "average st =
              py_int (round_double (real_of_int (sum_list ?out) / real (length ?out)))"
    and m: "minimum st = Min (set ?out)" "maximum st = Max (set ?out)"
    by blast
  have q: "round_double (100 / 3) = 4691249611844267 / 140737488355328"
    by (subst round_double_eval[where k = 1027]) (simp_all add: round_half_even_def)
  have r: "round_double (333 / 10) = 2343279181116211 / 70368744177664"
    by (subst round_double_eval[where k = 1027]) (simp_all add: round_half_even_def)
  have mean: "round_double (388000 / 3) = 8887718991189333 / 68719476736"
    by (subst round_double_eval[where k = 1038]) (simp_all add: round_half_even_def)
  from o have "odds st = py_round1 (round_double (100 / 3))" by simp
  then have "odds st = round_double (333 / 10)"
    unfolding q by (simp add: py_round1_def round_half_even_def)
  then have "odds st = 2343279181116211 / 70368744177664" by (simp only: r)
  moreover from a have "average st = py_int (round_double (388000 / 3))" by simp
  then have "average st = 129333" unfolding mean by (simp add: py_int_def)
  moreover from m have "minimum st = 0" "maximum st = 194000" by simp_all
  ultimately have "st = \<lparr>odds = 2343279181116211 / 70368744177664, average = 129333,
      minimum = 0, maximum = 194000\<rparr>"
    by simp
  with run show ?thesis by simp
qed

text \<open>
  Without the bound on the entries the statement fails. With a starting value of
  \<open>2\<^sup>5\<^sup>3 + 1\<close>, \<open>min_years = 0\<close> and a run of zero years, inputs that pass the
  checks make the simulator return the one-entry sequence \<open>[2\<^sup>5\<^sup>3 + 1]\<close>; its float
  quotient is \<open>2\<^sup>5\<^sup>3\<close>, so the average is below the minimum and is not the floor of
  the exact quotient.
\<close>

theorem average_below_minimum:
  "check_inputs \<lparr>start_value = 9007199254740993, withdrawal = 1000, min_years = 0,
                  most_likely_years = 1, max_years = 2, num_sim = 1\<rparr> = Inr ()
   \<and> simulator \<lparr>start_value = 9007199254740993, withdrawal = 1000, min_years = 0,
                  most_likely_years = 1, max_years = 2, num_sim = 1\<rparr>
        [Finite 0] [Finite 0] (\<lambda>k. (0, 0)) = Inr ([9007199254740993], 0)
   \<and> (\<exists>st. bankrupt_prob [9007199254740993] 0 = Inr st
      \<and> minimum st = 9007199254740993
      \<and> average st = 9007199254740992
      \<and> average st < minimum st
      \<and> average st \<noteq> \<lfloor>real_of_int (sum_list [9007199254740993]) / real (length [9007199254740993 :: int])\<rfloor>)"
proof -
  have m: "int_true_div 9007199254740993 1 = Inr 9007199254740992"
    by (simp add: int_true_div_def float_of_real_def Let_def round_double_example_big)
  have q: "int_true_div 0 1 = Inr 0"
    by (simp add: int_true_div_def float_of_real_zero)
  have "bankrupt_prob [9007199254740993] 0 =
          Inr \<lparr>odds = py_round1 0, average = 9007199254740992,
               minimum = 9007199254740993, maximum = 9007199254740993\<rparr>"
    by (simp add: bankrupt_prob_def m q py_int_def)
  then have b: "\<exists>st. bankrupt_prob [9007199254740993] 0 = Inr st
      \<and> minimum st = 9007199254740993
      \<and> average st = 9007199254740992
      \<and> average st < minimum st
      \<and> average st \<noteq> \<lfloor>real_of_int (sum_list [9007199254740993]) / real (length [9007199254740993 :: int])\<rfloor>"
    by simp
  have c: "check_inputs \<lparr>start_value = 9007199254740993, withdrawal = 1000, min_years = 0,
                  most_likely_years = 1, max_years = 2, num_sim = 1\<rparr> = Inr ()"
    by (simp add: check_inputs_def)
  from c zero_year_example b show ?thesis by (intro conjI)
qed

section \<open>Results about the input checks\<close>

text \<open>
  C4. With \<open>num_sim = 0\<close> and inputs that pass the checks on the years and the
  withdrawal, nothing rejects the input: the simulator returns the empty outcome
  sequence with bankrupt count 0, \<^verbatim>\<open>bankrupt_prob\<close> divides by its length, and the
  script ends with ZeroDivisionError.
\<close>

theorem num_sim_zero_divides_by_zero:
  assumes "num_sim p = 0" and "check_inputs p = Inr ()"
  shows "simulator p returns infl_rate rng = Inr ([], 0)
       \<and> bankrupt_prob [] 0 = Inl ZeroDivisionError
       \<and> script p returns infl_rate rng = Inl ZeroDivisionError"
proof -
  have s: "simulator p returns infl_rate rng = Inr ([], 0)"
    using assms(1) by (simp add: simulator_def sim_loop_done)
  have b: "bankrupt_prob [] 0 = Inl ZeroDivisionError"
    by (simp add: bankrupt_prob_def int_true_div_def)
  from s b assms(2) show ?thesis
    by (simp add: script_def main_def)
qed

theorem num_sim_zero_divides_by_zero_witness:
  "script \<lparr>start_value = 100000, withdrawal = 1000, min_years = 4,
            most_likely_years = 5, max_years = 8, num_sim = 0\<rparr>
     [Finite (1 / 8)] [Finite 0] (\<lambda>k. (k, 1 / 4)) = Inl ZeroDivisionError"
proof -
  let ?P = "\<lparr>start_value = 100000, withdrawal = 1000, min_years = 4,
             most_likely_years = 5, max_years = 8, num_sim = 0\<rparr>"
  have "num_sim ?P = 0" "check_inputs ?P = Inr ()"
    by (simp_all add: check_inputs_def)
  from num_sim_zero_divides_by_zero [OF this] show ?thesis by simp
qed

text \<open>
  C5. The input checks let the script continue exactly when
  \<open>min_years < most_likely_years < max_years \<le> 99\<close> and
  \<open>withdrawal < start_value\<close>: the bound the code tests on \<open>max_years\<close> is
  \<open>\<le> 99\<close>, so \<open>max_years = 99\<close> is accepted.
\<close>

theorem check_inputs_accepts_iff:
  "check_inputs p = Inr () \<longleftrightarrow>
     min_years p < most_likely_years p \<and> most_likely_years p < max_years p
     \<and> max_years p \<le> 99 \<and> withdrawal p < start_value p"
  by (auto simp: check_inputs_def)

theorem check_inputs_accepts_iff_witness:
  "check_inputs \<lparr>start_value = 2, withdrawal = 1, min_years = 1,
                  most_likely_years = 2, max_years = 99, num_sim = 1\<rparr> = Inr ()
   \<and> \<not> max_years \<lparr>start_value = 2, withdrawal = 1, min_years = 1,
                  most_likely_years = 2, max_years = 99, num_sim = 1\<rparr> < 99"
  by (subst check_inputs_accepts_iff) simp

end
